theory Spec2Isabelle
  imports Main "HOL-Library.Code_Target_Nat"
begin

section \<open>The sequence container of Sequence.h\<close>

text \<open>
  The header gives member functions to one storage strategy only, the local fixed one
  (\<open>sequence_storage<false, false, T, SIZE, CAP>\<close>): an inline array of \<open>CAP\<close> slots in a
  union, so that a slot is raw memory until an element is constructed in it. The three
  element-location strategies \<open>FRONT\<close>, \<open>MIDDLE\<close> and \<open>BACK\<close> are built on it.

  Template parameters become function arguments: \<open>LOC\<close> is a \<open>sequence_lits\<close>, \<open>CAP\<close> a
  \<open>nat\<close>, and \<open>SIZE\<close>, an unsigned integer type, is the number of its bits: a value
  stored in a member of type \<open>size_type\<close> (\<open>m_size\<close>, \<open>m_offset\<close>) or returned as one
  (\<open>back_gap\<close>) is reduced modulo \<open>2 ^ SIZE\<close>. Values of type \<open>size_t\<close> are natural
  numbers. The element type \<open>T\<close> is a type of plain values whose copy construction
  cannot fail, as the \<open>int\<close> of \<open>main\<close>. Pointers into the array are integers, the
  distance from \<open>capacity_start()\<close>, so that a pointer below the array or past its end
  can be written down and every access checks it. Every \<open>assert\<close> of the source is
  checked.
\<close>

subsection \<open>Data\<close>

datatype sequence_lits = FRONT | MIDDLE | BACK

text \<open>
  \<open>elements\<close> is \<open>m_storage.elements\<close>: \<open>None\<close> is a slot of raw memory, \<open>Some v\<close> a slot
  holding a constructed element. \<open>m_offset\<close> is the member of the \<open>MIDDLE\<close> strategy; the
  other two strategies never read or write it.
\<close>

record 'a sequence_storage =
  m_size :: nat
  elements :: "'a option list"
  m_offset :: nat

text \<open>
  \<open>bad_alloc\<close> is the exception thrown by \<open>reallocate\<close>; \<open>assertion_failure\<close> is a failed
  \<open>assert\<close>; \<open>undefined_behavior\<close> is an access outside the array or a read of a raw slot.
  An outcome is the container after a normal return (\<open>Inr\<close>), or the error together with
  the container as it was when the error happened (\<open>Inl\<close>).
\<close>

datatype error = bad_alloc | assertion_failure | undefined_behavior

type_synonym 'a outcome = "(error \<times> 'a sequence_storage) + 'a sequence_storage"

definition and_then ::
  "'a outcome \<Rightarrow> ('a sequence_storage \<Rightarrow> 'a outcome) \<Rightarrow> 'a outcome" where
  "and_then r f = (case r of Inl x \<Rightarrow> Inl x | Inr s \<Rightarrow> f s)"

subsection \<open>The size type\<close>

text \<open>
  The conversion of a value to \<open>size_type\<close>, an unsigned type of \<open>SIZE\<close> bits: what is
  stored by \<open>++m_size\<close>, by an assignment to \<open>m_offset\<close> and by the return of
  \<open>back_gap\<close>. For \<open>unsigned char\<close>, \<open>SIZE\<close> is 8.
\<close>

definition to_size_type :: "nat \<Rightarrow> nat \<Rightarrow> nat" where
  "to_size_type SIZE n = n mod 2 ^ SIZE"

text \<open>The default \<open>SIZE\<close>, the \<open>size_t\<close> of \<open>sequence_traits<>\<close> in \<open>main\<close>: 64 bits.\<close>

definition size_t :: nat where
  "size_t = 64"

subsection \<open>sequence_storage<false, false, T, SIZE, CAP>\<close>

definition capacity :: "nat \<Rightarrow> nat" where
  "capacity CAP = CAP"

definition seq_size :: "'a sequence_storage \<Rightarrow> nat" where
  "seq_size s = m_size s"

definition capacity_start :: "int" where
  "capacity_start = 0"

definition capacity_end :: "nat \<Rightarrow> int" where
  "capacity_end CAP = capacity_start + int CAP"

definition in_capacity :: "nat \<Rightarrow> 'a sequence_storage \<Rightarrow> int \<Rightarrow> bool" where
  "in_capacity CAP s p \<longleftrightarrow>
     capacity_start \<le> p \<and> p < capacity_end CAP \<and> nat p < length (elements s)"

text \<open>What a slot holds; a pointer outside the array holds no element.\<close>

definition slot :: "nat \<Rightarrow> 'a sequence_storage \<Rightarrow> int \<Rightarrow> 'a option" where
  "slot CAP s p = (if in_capacity CAP s p then elements s ! nat p else None)"

text \<open>\<open>new(p) value_type(v)\<close>: whatever the slot held before is overwritten.\<close>

definition placement_new ::
  "nat \<Rightarrow> int \<Rightarrow> 'a \<Rightarrow> 'a sequence_storage \<Rightarrow> 'a outcome" where
  "placement_new CAP p v s =
     (if in_capacity CAP s p
      then Inr (s\<lparr>elements := (elements s)[nat p := Some v]\<rparr>)
      else Inl (undefined_behavior, s))"

text \<open>\<open>p->~value_type()\<close>: the slot is raw memory afterwards.\<close>

definition destroy_at :: "nat \<Rightarrow> int \<Rightarrow> 'a sequence_storage \<Rightarrow> 'a outcome" where
  "destroy_at CAP p s =
     (if in_capacity CAP s p
      then Inr (s\<lparr>elements := (elements s)[nat p := None]\<rparr>)
      else Inl (undefined_behavior, s))"

text \<open>
  \<open>add\<close> and the pushes take their argument as \<open>const value_type& e\<close>. The object
  \<open>e\<close> refers to is either outside the container, and then no operation of the container
  changes its value, or it is an element of the container itself, as in
  \<open>s.push_back(*s.begin())\<close>, and then \<open>e\<close> is the pointer to its slot.
\<close>

datatype 'a const_ref = Outside 'a | Inside int

text \<open>The value read through the reference now; none if it refers to a raw slot.\<close>

fun value_of :: "nat \<Rightarrow> 'a sequence_storage \<Rightarrow> 'a const_ref \<Rightarrow> 'a option" where
  "value_of CAP s (Outside v) = Some v"
| "value_of CAP s (Inside q) = slot CAP s q"

definition add ::
  "nat \<Rightarrow> nat \<Rightarrow> int \<Rightarrow> 'a const_ref \<Rightarrow> 'a sequence_storage \<Rightarrow> 'a outcome" where
  "add SIZE CAP p e s =
     (if \<not> seq_size s < capacity CAP then Inl (assertion_failure, s)
      else
        (case value_of CAP s e of
           None \<Rightarrow> Inl (undefined_behavior, s)
         | Some v \<Rightarrow>
             and_then (placement_new CAP p v s)
               (\<lambda>s1. Inr (s1\<lparr>m_size := to_size_type SIZE (m_size s1 + 1)\<rparr>))))"

text \<open>
  The loop of \<open>shift\<close> for \<open>dist > 0\<close>:
  \<^verbatim>\<open>for (auto dst = end + dist; end > beg; --dst)
     { new(dst) value_type(*--end); end->~value_type(); }\<close>
\<close>

function shift_up ::
  "nat \<Rightarrow> int \<Rightarrow> int \<Rightarrow> int \<Rightarrow> 'a sequence_storage \<Rightarrow> 'a outcome" where
  "shift_up CAP beg end' dst s =
     (if end' > beg then
        (case slot CAP s (end' - 1) of
           None \<Rightarrow> Inl (undefined_behavior, s)
         | Some v \<Rightarrow>
             and_then (placement_new CAP dst v s) (\<lambda>s1.
             and_then (destroy_at CAP (end' - 1) s1) (\<lambda>s2.
             shift_up CAP beg (end' - 1) (dst - 1) s2)))
      else Inr s)"
  by pat_completeness auto
termination
  by (relation "measure (\<lambda>(CAP, beg, end', dst, s). nat (end' - beg))") auto

text \<open>
  The loop of \<open>shift\<close> for \<open>dist < 0\<close>:
  \<^verbatim>\<open>for (auto dst = beg + dist; beg < end; ++dst, ++beg)
     { new(dst) value_type(*beg); beg->~value_type(); }\<close>
\<close>

function shift_down ::
  "nat \<Rightarrow> int \<Rightarrow> int \<Rightarrow> int \<Rightarrow> 'a sequence_storage \<Rightarrow> 'a outcome" where
  "shift_down CAP beg end' dst s =
     (if beg < end' then
        (case slot CAP s beg of
           None \<Rightarrow> Inl (undefined_behavior, s)
         | Some v \<Rightarrow>
             and_then (placement_new CAP dst v s) (\<lambda>s1.
             and_then (destroy_at CAP beg s1) (\<lambda>s2.
             shift_down CAP (beg + 1) end' (dst + 1) s2)))
      else Inr s)"
  by pat_completeness auto
termination
  by (relation "measure (\<lambda>(CAP, beg, end', dst, s). nat (end' - beg))") auto

declare shift_up.simps [simp del] shift_down.simps [simp del]

definition shift ::
  "nat \<Rightarrow> int \<Rightarrow> int \<Rightarrow> int \<Rightarrow> 'a sequence_storage \<Rightarrow> 'a outcome" where
  "shift CAP beg end' dist s =
     (if dist > 0 then
        (if \<not> beg \<ge> capacity_start then Inl (assertion_failure, s)
         else if \<not> end' + dist \<le> capacity_end CAP then Inl (assertion_failure, s)
         else shift_up CAP beg end' (end' + dist) s)
      else if dist < 0 then
        (if \<not> beg - dist \<ge> capacity_start then Inl (assertion_failure, s)
         else if \<not> end' \<le> capacity_end CAP then Inl (assertion_failure, s)
         else shift_down CAP beg end' (beg + dist) s)
      else Inr s)"

definition reallocate :: "'a sequence_storage \<Rightarrow> 'a outcome" where
  "reallocate s = Inl (bad_alloc, s)"

subsection \<open>sequence_management\<close>

fun data_start :: "sequence_lits \<Rightarrow> nat \<Rightarrow> 'a sequence_storage \<Rightarrow> int" where
  "data_start FRONT CAP s = capacity_start"
| "data_start MIDDLE CAP s = capacity_start + int (m_offset s)"
| "data_start BACK CAP s = capacity_end CAP - int (seq_size s)"

fun data_end :: "sequence_lits \<Rightarrow> nat \<Rightarrow> 'a sequence_storage \<Rightarrow> int" where
  "data_end FRONT CAP s = capacity_start + int (seq_size s)"
| "data_end MIDDLE CAP s = capacity_start + int (m_offset s) + int (seq_size s)"
| "data_end BACK CAP s = capacity_end CAP"

text \<open>
  \<open>back_gap\<close> computes \<open>capacity() - (m_offset + size())\<close> in \<open>size_t\<close> and returns it as
  a \<open>size_type\<close>. This subtraction and the \<open>capacity() - size()\<close> of \<open>push_front\<close> do
  not go below zero in any state reached by pushes, whatever \<open>SIZE\<close> is (lemma
  \<open>pushes_bounds\<close> below).
\<close>

definition back_gap :: "nat \<Rightarrow> nat \<Rightarrow> 'a sequence_storage \<Rightarrow> nat" where
  "back_gap SIZE CAP s = to_size_type SIZE (capacity CAP - (m_offset s + seq_size s))"

fun push_front ::
  "sequence_lits \<Rightarrow> nat \<Rightarrow> nat \<Rightarrow> 'a const_ref \<Rightarrow> 'a sequence_storage \<Rightarrow> 'a outcome"
  where
  "push_front FRONT SIZE CAP e s =
     and_then (if seq_size s = capacity CAP then reallocate s else Inr s) (\<lambda>s.
     and_then (shift CAP (data_start FRONT CAP s) (data_end FRONT CAP s) 1 s) (\<lambda>s.
     add SIZE CAP (data_start FRONT CAP s) e s))"
| "push_front MIDDLE SIZE CAP e s =
     and_then (if seq_size s = capacity CAP then reallocate s else Inr s) (\<lambda>s.
     and_then
       (if m_offset s = 0 then
          (let offset = (capacity CAP - seq_size s) div 2 in
           and_then (shift CAP (data_start MIDDLE CAP s) (data_end MIDDLE CAP s) (int offset) s)
             (\<lambda>s. Inr (s\<lparr>m_offset := to_size_type SIZE offset\<rparr>)))
        else Inr (s\<lparr>m_offset := to_size_type SIZE (m_offset s - 1)\<rparr>)) (\<lambda>s.
     add SIZE CAP (data_start MIDDLE CAP s) e s))"
| "push_front BACK SIZE CAP e s =
     and_then (if seq_size s = capacity CAP then reallocate s else Inr s) (\<lambda>s.
     add SIZE CAP (data_start BACK CAP s - 1) e s)"

fun push_back ::
  "sequence_lits \<Rightarrow> nat \<Rightarrow> nat \<Rightarrow> 'a const_ref \<Rightarrow> 'a sequence_storage \<Rightarrow> 'a outcome"
  where
  "push_back FRONT SIZE CAP e s =
     and_then (if seq_size s = capacity CAP then reallocate s else Inr s) (\<lambda>s.
     add SIZE CAP (data_end FRONT CAP s) e s)"
| "push_back MIDDLE SIZE CAP e s =
     and_then (if seq_size s = capacity CAP then reallocate s else Inr s) (\<lambda>s.
     and_then
       (if back_gap SIZE CAP s = 0 then
          (let offset = m_offset s div 2 in
           and_then (shift CAP (data_start MIDDLE CAP s) (data_end MIDDLE CAP s)
                       (- int (m_offset s - offset)) s)
             (\<lambda>s. Inr (s\<lparr>m_offset := to_size_type SIZE offset\<rparr>)))
        else Inr s) (\<lambda>s.
     add SIZE CAP (data_end MIDDLE CAP s) e s))"
| "push_back BACK SIZE CAP e s =
     and_then (if seq_size s = capacity CAP then reallocate s else Inr s) (\<lambda>s.
     and_then (shift CAP (data_start BACK CAP s) (data_end BACK CAP s) (- 1) s) (\<lambda>s.
     add SIZE CAP (data_end BACK CAP s - 1) e s))"

subsection \<open>sequence\<close>

text \<open>
  A default-constructed container: \<open>m_size = 0\<close>, every slot raw memory, and for \<open>MIDDLE\<close>
  \<open>m_offset = CAP / 2\<close>.
\<close>

definition sequence_init :: "sequence_lits \<Rightarrow> nat \<Rightarrow> nat \<Rightarrow> 'a sequence_storage" where
  "sequence_init LOC SIZE CAP =
     \<lparr>m_size = 0, elements = replicate CAP None,
      m_offset = (case LOC of MIDDLE \<Rightarrow> to_size_type SIZE (CAP div 2) | _ \<Rightarrow> 0)\<rparr>"

definition sequence_begin :: "sequence_lits \<Rightarrow> nat \<Rightarrow> 'a sequence_storage \<Rightarrow> int" where
  "sequence_begin LOC CAP s = data_start LOC CAP s"

definition sequence_end :: "sequence_lits \<Rightarrow> nat \<Rightarrow> 'a sequence_storage \<Rightarrow> int" where
  "sequence_end LOC CAP s = data_end LOC CAP s"

text \<open>
  What a range-based \<open>for\<close> from \<open>begin()\<close> to \<open>end()\<close> visits: the content of each slot
  of the window, in order; \<open>None\<close> where the slot holds no element.
\<close>

definition iterate :: "sequence_lits \<Rightarrow> nat \<Rightarrow> 'a sequence_storage \<Rightarrow> 'a option list" where
  "iterate LOC CAP s = map (slot CAP s) [sequence_begin LOC CAP s .. sequence_end LOC CAP s - 1]"

text \<open>
  The destructor calls \<open>~value_type()\<close> on every slot from \<open>data_start()\<close> to \<open>data_end()\<close>.
  The result is the list of what each of these slots held when its destructor ran, and
  the array afterwards.
\<close>

definition sequence_dtor ::
  "sequence_lits \<Rightarrow> nat \<Rightarrow> 'a sequence_storage \<Rightarrow> 'a option list \<times> 'a option list" where
  "sequence_dtor LOC CAP s =
     (map (slot CAP s) [data_start LOC CAP s .. data_end LOC CAP s - 1],
      fold (\<lambda>p xs. if in_capacity CAP s p then xs[nat p := None] else xs)
        [data_start LOC CAP s .. data_end LOC CAP s - 1] (elements s))"

subsection \<open>Programs of pushes\<close>

datatype 'a push_call = Push_front "'a const_ref" | Push_back "'a const_ref"

fun push ::
  "sequence_lits \<Rightarrow> nat \<Rightarrow> nat \<Rightarrow> 'a push_call \<Rightarrow> 'a sequence_storage \<Rightarrow> 'a outcome" where
  "push LOC SIZE CAP (Push_front e) s = push_front LOC SIZE CAP e s"
| "push LOC SIZE CAP (Push_back e) s = push_back LOC SIZE CAP e s"

text \<open>The calls are made in order; the first error ends the run.\<close>

fun pushes ::
  "sequence_lits \<Rightarrow> nat \<Rightarrow> nat \<Rightarrow> 'a push_call list \<Rightarrow> 'a sequence_storage \<Rightarrow> 'a outcome" where
  "pushes LOC SIZE CAP [] s = Inr s"
| "pushes LOC SIZE CAP (p # ps) s = and_then (push LOC SIZE CAP p s) (pushes LOC SIZE CAP ps)"


subsection \<open>Predicates used in the statements and proofs\<close>

text \<open>The window lies inside the capacity.\<close>

fun window_bounds :: "sequence_lits \<Rightarrow> nat \<Rightarrow> 'a sequence_storage \<Rightarrow> bool" where
  "window_bounds MIDDLE CAP s \<longleftrightarrow> m_offset s + m_size s \<le> CAP"
| "window_bounds LOC CAP s \<longleftrightarrow> m_size s \<le> CAP"

text \<open>
  The array holds exactly the elements \<open>xs\<close>, in order, in the slots from \<open>b\<close> on, and
  every other slot is raw memory.
\<close>

definition window :: "nat \<Rightarrow> 'a sequence_storage \<Rightarrow> int \<Rightarrow> 'a list \<Rightarrow> bool" where
  "window CAP s b xs \<longleftrightarrow>
     length (elements s) = CAP \<and> m_size s = length xs \<and>
     0 \<le> b \<and> b + int (length xs) \<le> int CAP \<and>
     (\<forall>p. slot CAP s p =
        (if b \<le> p \<and> p < b + int (length xs) then Some (xs ! nat (p - b)) else None))"

section \<open>Properties of the primitives\<close>

lemma to_size_type_le: "to_size_type SIZE n \<le> n"
  by (simp add: to_size_type_def)

lemma to_size_type_id: "n < 2 ^ SIZE \<Longrightarrow> to_size_type SIZE n = n"
  by (simp add: to_size_type_def)

lemmas eval_defs = capacity_def seq_size_def capacity_start_def capacity_end_def
  in_capacity_def slot_def placement_new_def destroy_at_def add_def shift_def reallocate_def
  iterate_def sequence_begin_def sequence_end_def
  to_size_type_def size_t_def

lemma and_then_Inr [simp]: "and_then (Inr s) f = f s"
  by (simp add: and_then_def)

lemma and_then_Inl [simp]: "and_then (Inl x) f = Inl x"
  by (simp add: and_then_def)

lemma and_then_eq_Inr: "and_then r f = Inr s' \<longleftrightarrow> (\<exists>s1. r = Inr s1 \<and> f s1 = Inr s')"
  by (cases r) simp_all

lemma and_then_eq_Inl:
  "and_then r f = Inl x \<longleftrightarrow> r = Inl x \<or> (\<exists>s1. r = Inr s1 \<and> f s1 = Inl x)"
  by (cases r) simp_all

lemma and_then_assoc: "and_then (and_then r f) g = and_then r (\<lambda>s. and_then (f s) g)"
  by (cases r) simp_all

subsection \<open>Slots\<close>

lemma placement_new_Inr:
  "placement_new CAP p v s = Inr s' \<longleftrightarrow>
     in_capacity CAP s p \<and> s' = s\<lparr>elements := (elements s)[nat p := Some v]\<rparr>"
  by (auto simp: placement_new_def)

lemma destroy_at_Inr:
  "destroy_at CAP p s = Inr s' \<longleftrightarrow>
     in_capacity CAP s p \<and> s' = s\<lparr>elements := (elements s)[nat p := None]\<rparr>"
  by (auto simp: destroy_at_def)

lemma placement_new_Inl: "placement_new CAP p v s = Inl x \<Longrightarrow> fst x = undefined_behavior"
  by (auto simp: placement_new_def split: if_splits)

lemma destroy_at_Inl: "destroy_at CAP p s = Inl x \<Longrightarrow> fst x = undefined_behavior"
  by (auto simp: destroy_at_def split: if_splits)

lemma in_capacity_iff:
  "length (elements s) = CAP \<Longrightarrow> in_capacity CAP s p \<longleftrightarrow> 0 \<le> p \<and> p < int CAP"
  by (auto simp: in_capacity_def capacity_start_def capacity_end_def)

lemma slot_placement_new:
  "placement_new CAP q v s = Inr s1 \<Longrightarrow>
     slot CAP s1 p = (if p = q then Some v else slot CAP s p)"
  by (auto simp: placement_new_Inr slot_def in_capacity_def capacity_start_def)

lemma slot_destroy_at:
  "destroy_at CAP q s = Inr s1 \<Longrightarrow>
     slot CAP s1 p = (if p = q then None else slot CAP s p)"
  by (auto simp: destroy_at_Inr slot_def in_capacity_def capacity_start_def)

lemma placement_new_ok:
  "length (elements s) = CAP \<Longrightarrow> 0 \<le> q \<Longrightarrow> q < int CAP \<Longrightarrow>
     \<exists>s1. placement_new CAP q v s = Inr s1 \<and> length (elements s1) = CAP \<and>
       m_size s1 = m_size s \<and> m_offset s1 = m_offset s"
  by (simp add: placement_new_def in_capacity_iff)

lemma destroy_at_ok:
  "length (elements s) = CAP \<Longrightarrow> 0 \<le> q \<Longrightarrow> q < int CAP \<Longrightarrow>
     \<exists>s1. destroy_at CAP q s = Inr s1 \<and> length (elements s1) = CAP \<and>
       m_size s1 = m_size s \<and> m_offset s1 = m_offset s"
  by (simp add: destroy_at_def in_capacity_iff)

lemma slot_m_offset_update [simp]: "slot CAP (s\<lparr>m_offset := x\<rparr>) p = slot CAP s p"
  by (simp add: slot_def in_capacity_def)

subsection \<open>add\<close>

lemma add_Inr:
  "add SIZE CAP p e s = Inr s' \<longleftrightarrow>
     m_size s < CAP \<and> in_capacity CAP s p \<and>
     (\<exists>v. value_of CAP s e = Some v \<and>
        s' = s\<lparr>elements := (elements s)[nat p := Some v],
                m_size := to_size_type SIZE (m_size s + 1)\<rparr>)"
  by (auto simp: add_def placement_new_def seq_size_def capacity_def split: option.splits)

lemma add_Inl: "add SIZE CAP p e s = Inl x \<Longrightarrow> fst x \<noteq> bad_alloc"
  by (auto simp: add_def placement_new_def split: if_splits option.splits)

lemma add_slot:
  "add SIZE CAP p e s1 = Inr s' \<Longrightarrow>
     slot CAP s' p = value_of CAP s1 e \<and> m_size s' = to_size_type SIZE (m_size s1 + 1)"
  by (auto simp: add_Inr slot_def in_capacity_def)

lemma add_ok:
  assumes "length (elements s) = CAP" "m_size s < CAP" "0 \<le> q" "q < int CAP"
    and "CAP < 2 ^ SIZE"
  shows "\<exists>s'. add SIZE CAP q (Outside e) s = Inr s' \<and> length (elements s') = CAP \<and>
     m_size s' = m_size s + 1 \<and> m_offset s' = m_offset s \<and>
     (\<forall>p. slot CAP s' p = (if p = q then Some e else slot CAP s p))"
  using assms
  by (auto simp: add_Inr in_capacity_iff slot_def in_capacity_def capacity_start_def
        capacity_end_def to_size_type_id)

subsection \<open>shift\<close>

text \<open>A shift that returns has changed neither the size nor the offset.\<close>

lemma shift_up_fields:
  "shift_up CAP beg end' dst s = Inr s' \<Longrightarrow>
     m_size s' = m_size s \<and> m_offset s' = m_offset s \<and>
     length (elements s') = length (elements s)"
proof (induction CAP beg end' dst s rule: shift_up.induct)
  case (1 CAP beg end' dst s)
  show ?case
  proof (cases "end' > beg")
    case True
    with "1.prems" obtain v s1 s2 where
      v: "slot CAP s (end' - 1) = Some v" and
      s1: "placement_new CAP dst v s = Inr s1" and
      s2: "destroy_at CAP (end' - 1) s1 = Inr s2" and
      r: "shift_up CAP beg (end' - 1) (dst - 1) s2 = Inr s'"
      by (subst (asm) shift_up.simps) (auto simp: and_then_eq_Inr split: option.splits)
    from "1.IH" [OF True v r] s1 s2 show ?thesis
      by (auto simp: placement_new_Inr destroy_at_Inr)
  next
    case False
    with "1.prems" show ?thesis
      by (subst (asm) shift_up.simps) simp
  qed
qed

lemma shift_down_fields:
  "shift_down CAP beg end' dst s = Inr s' \<Longrightarrow>
     m_size s' = m_size s \<and> m_offset s' = m_offset s \<and>
     length (elements s') = length (elements s)"
proof (induction CAP beg end' dst s rule: shift_down.induct)
  case (1 CAP beg end' dst s)
  show ?case
  proof (cases "beg < end'")
    case True
    with "1.prems" obtain v s1 s2 where
      v: "slot CAP s beg = Some v" and
      s1: "placement_new CAP dst v s = Inr s1" and
      s2: "destroy_at CAP beg s1 = Inr s2" and
      r: "shift_down CAP (beg + 1) end' (dst + 1) s2 = Inr s'"
      by (subst (asm) shift_down.simps) (auto simp: and_then_eq_Inr split: option.splits)
    from "1.IH" [OF True v r] s1 s2 show ?thesis
      by (auto simp: placement_new_Inr destroy_at_Inr)
  next
    case False
    with "1.prems" show ?thesis
      by (subst (asm) shift_down.simps) simp
  qed
qed

lemma shift_fields:
  "shift CAP beg end' dist s = Inr s' \<Longrightarrow>
     m_size s' = m_size s \<and> m_offset s' = m_offset s \<and>
     length (elements s') = length (elements s)"
  by (auto simp: shift_def dest: shift_up_fields shift_down_fields split: if_splits)

text \<open>No shift throws \<open>bad_alloc\<close>.\<close>

lemma shift_up_Inl: "shift_up CAP beg end' dst s = Inl x \<Longrightarrow> fst x = undefined_behavior"
proof (induction CAP beg end' dst s rule: shift_up.induct)
  case (1 CAP beg end' dst s)
  from "1.prems" show ?case
    by (subst (asm) shift_up.simps)
       (auto simp: and_then_eq_Inl split: if_splits option.splits
          dest: placement_new_Inl destroy_at_Inl "1.IH")
qed

lemma shift_down_Inl: "shift_down CAP beg end' dst s = Inl x \<Longrightarrow> fst x = undefined_behavior"
proof (induction CAP beg end' dst s rule: shift_down.induct)
  case (1 CAP beg end' dst s)
  from "1.prems" show ?case
    by (subst (asm) shift_down.simps)
       (auto simp: and_then_eq_Inl split: if_splits option.splits
          dest: placement_new_Inl destroy_at_Inl "1.IH")
qed

lemma shift_Inl: "shift CAP beg end' dist s = Inl x \<Longrightarrow> fst x \<noteq> bad_alloc"
  by (auto simp: shift_def dest: shift_up_Inl shift_down_Inl split: if_splits)

text \<open>
  The downward loop moves the elements of \<open>[beg, end')\<close> to the slots from \<open>dst\<close> on and
  leaves raw memory where they were.
\<close>

lemma shift_down_spec:
  assumes "length (elements s) = CAP" "0 \<le> dst" "dst < beg" "end' \<le> int CAP"
    and "\<forall>p. beg \<le> p \<and> p < end' \<longrightarrow> slot CAP s p \<noteq> None"
  shows "\<exists>s'. shift_down CAP beg end' dst s = Inr s' \<and> length (elements s') = CAP \<and>
     m_size s' = m_size s \<and> m_offset s' = m_offset s \<and>
     (\<forall>p. slot CAP s' p =
        (if dst \<le> p \<and> p < dst + (end' - beg) then slot CAP s (p + (beg - dst))
         else if beg \<le> p \<and> p < end' then None else slot CAP s p))"
  using assms
proof (induction CAP beg end' dst s rule: shift_down.induct)
  case (1 CAP beg end' dst s)
  show ?case
  proof (cases "beg < end'")
    case False
    then show ?thesis
      by (subst shift_down.simps) (use "1.prems" in auto)
  next
    case True
    with "1.prems" obtain v where v: "slot CAP s beg = Some v"
      by auto
    from "1.prems" True obtain s1 where s1: "placement_new CAP dst v s = Inr s1"
      "length (elements s1) = CAP" "m_size s1 = m_size s" "m_offset s1 = m_offset s"
      using placement_new_ok [of s CAP dst v] by auto
    from "1.prems" True s1 obtain s2 where s2: "destroy_at CAP beg s1 = Inr s2"
      "length (elements s2) = CAP" "m_size s2 = m_size s1" "m_offset s2 = m_offset s1"
      using destroy_at_ok [of s1 CAP beg] by auto
    have slot2: "slot CAP s2 p =
        (if p = beg then None else if p = dst then Some v else slot CAP s p)" for p
      by (simp add: slot_destroy_at [OF s2(1)] slot_placement_new [OF s1(1)])
    have src: "\<forall>p. beg + 1 \<le> p \<and> p < end' \<longrightarrow> slot CAP s2 p \<noteq> None"
      using "1.prems" by (auto simp: slot2)
    from "1.IH" [OF True v s2(2) _ _ _ src] "1.prems"
    obtain s' where s': "shift_down CAP (beg + 1) end' (dst + 1) s2 = Inr s'"
      "length (elements s') = CAP" "m_size s' = m_size s2" "m_offset s' = m_offset s2"
      and sl: "\<And>p. slot CAP s' p =
        (if dst + 1 \<le> p \<and> p < dst + 1 + (end' - (beg + 1))
         then slot CAP s2 (p + (beg + 1 - (dst + 1)))
         else if beg + 1 \<le> p \<and> p < end' then None else slot CAP s2 p)"
      by auto
    have run: "shift_down CAP beg end' dst s = Inr s'"
      by (subst shift_down.simps) (simp add: True v s1 s2 s')
    have "slot CAP s' p =
        (if dst \<le> p \<and> p < dst + (end' - beg) then slot CAP s (p + (beg - dst))
         else if beg \<le> p \<and> p < end' then None else slot CAP s p)" for p
      using True "1.prems"(2,3) v by (auto simp: sl slot2)
    with run s' s1 s2 show ?thesis
      by simp
  qed
qed

subsection \<open>The window under add and shift\<close>

lemma window_size: "window CAP s b xs \<Longrightarrow> m_size s = length xs"
  by (simp add: window_def)

lemma window_m_offset_update [simp]:
  "window CAP (s\<lparr>m_offset := x\<rparr>) b xs = window CAP s b xs"
  by (simp add: window_def)

lemma add_window_back:
  assumes "window CAP s b xs" "b + int (length xs) < int CAP" "CAP < 2 ^ SIZE"
  shows "\<exists>s'. add SIZE CAP (b + int (length xs)) (Outside e) s = Inr s' \<and>
     window CAP s' b (xs @ [e]) \<and>
     m_offset s' = m_offset s"
proof -
  from assms obtain s' where s': "add SIZE CAP (b + int (length xs)) (Outside e) s = Inr s'"
    "length (elements s') = CAP" "m_size s' = m_size s + 1" "m_offset s' = m_offset s"
    and sl: "\<And>p. slot CAP s' p = (if p = b + int (length xs) then Some e else slot CAP s p)"
    using add_ok [of s CAP "b + int (length xs)" SIZE e] by (auto simp: window_def)
  have "window CAP s' b (xs @ [e])"
    using assms s' unfolding window_def
    by (auto simp: sl nth_append nat_diff_distrib')
  with s' show ?thesis by blast
qed

lemma add_window_front:
  assumes "window CAP s b xs" "0 < b" "CAP < 2 ^ SIZE"
  shows "\<exists>s'. add SIZE CAP (b - 1) (Outside e) s = Inr s' \<and> window CAP s' (b - 1) (e # xs) \<and>
     m_offset s' = m_offset s"
proof -
  from assms obtain s' where s': "add SIZE CAP (b - 1) (Outside e) s = Inr s'"
    "length (elements s') = CAP" "m_size s' = m_size s + 1" "m_offset s' = m_offset s"
    and sl: "\<And>p. slot CAP s' p = (if p = b - 1 then Some e else slot CAP s p)"
    using add_ok [of s CAP "b - 1" SIZE e] by (auto simp: window_def)
  have "window CAP s' (b - 1) (e # xs)"
    using assms s' unfolding window_def
    by (auto simp: sl nth_Cons' nat_diff_distrib')
  with s' show ?thesis by blast
qed

lemma shift_window_down:
  assumes "window CAP s b xs" "0 < d" "d \<le> b"
  shows "\<exists>s'. shift CAP b (b + int (length xs)) (- d) s = Inr s' \<and> window CAP s' (b - d) xs \<and>
     m_offset s' = m_offset s"
proof -
  have src: "\<forall>p. b \<le> p \<and> p < b + int (length xs) \<longrightarrow> slot CAP s p \<noteq> None"
    using assms by (simp add: window_def)
  from assms obtain s' where s': "shift_down CAP b (b + int (length xs)) (b - d) s = Inr s'"
    "length (elements s') = CAP" "m_size s' = m_size s" "m_offset s' = m_offset s"
    and sl: "\<And>p. slot CAP s' p =
        (if b - d \<le> p \<and> p < b - d + int (length xs) then slot CAP s (p + d)
         else if b \<le> p \<and> p < b + int (length xs) then None else slot CAP s p)"
    using shift_down_spec [of s CAP "b - d" b "b + int (length xs)", OF _ _ _ _ src]
    by (auto simp: window_def)
  have run: "shift CAP b (b + int (length xs)) (- d) s = Inr s'"
    using assms s' by (simp add: shift_def capacity_start_def capacity_end_def window_def)
  have old: "slot CAP s p =
        (if b \<le> p \<and> p < b + int (length xs) then Some (xs ! nat (p - b)) else None)" for p
    using assms(1) by (simp add: window_def)
  have "slot CAP s' p =
        (if b - d \<le> p \<and> p < b - d + int (length xs)
         then Some (xs ! nat (p - (b - d))) else None)" for p
    using assms(2) by (auto simp: sl old intro!: arg_cong [where f = "nth xs"])
  with assms s' have "window CAP s' (b - d) xs"
    by (simp add: window_def)
  with run s' show ?thesis by blast
qed

text \<open>Iterating over a window that holds \<open>xs\<close> yields \<open>xs\<close>.\<close>

lemma iterate_window:
  assumes "window CAP s (data_start LOC CAP s) xs"
  shows "iterate LOC CAP s = map Some xs"
proof -
  let ?b = "data_start LOC CAP s"
  have de: "data_end LOC CAP s = ?b + int (length xs)"
    using window_size [OF assms]
    by (cases LOC) (simp_all add: seq_size_def capacity_end_def capacity_start_def)
  have sl: "slot CAP s (?b + int k) = Some (xs ! k)" if "k < length xs" for k
    using assms that by (simp add: window_def)
  have "map (slot CAP s) [?b .. ?b + int (length xs) - 1] = map Some xs"
  proof (rule nth_equalityI)
    show "length (map (slot CAP s) [?b .. ?b + int (length xs) - 1]) = length (map Some xs)"
      by simp
  next
    fix k
    assume "k < length (map (slot CAP s) [?b .. ?b + int (length xs) - 1])"
    then have k: "k < length xs"
      by simp
    then have "[?b .. ?b + int (length xs) - 1] ! k = ?b + int k"
      by simp
    with k show "map (slot CAP s) [?b .. ?b + int (length xs) - 1] ! k = map Some xs ! k"
      by (simp add: sl)
  qed
  then show ?thesis
    by (simp add: iterate_def sequence_begin_def sequence_end_def de)
qed

lemma init_window:
  "window CAP (sequence_init LOC SIZE CAP) (data_start LOC CAP (sequence_init LOC SIZE CAP)) []"
proof -
  have "to_size_type SIZE (CAP div 2) \<le> CAP"
    using to_size_type_le [of SIZE "CAP div 2"] by simp
  then show ?thesis
    by (cases LOC)
       (auto simp: window_def sequence_init_def slot_def in_capacity_def capacity_start_def
          capacity_end_def seq_size_def)
qed

section \<open>Properties of push_front and push_back\<close>

subsection \<open>The capacity check\<close>

lemma full_check_Inr:
  "(if m_size s = CAP then reallocate s else Inr s) = Inr s1 \<longleftrightarrow> m_size s \<noteq> CAP \<and> s1 = s"
  by (auto simp: reallocate_def)

lemma full_check_Inl:
  "(if m_size s = CAP then reallocate s else Inr s) = Inl x \<longleftrightarrow>
     m_size s = CAP \<and> x = (bad_alloc, s)"
  by (auto simp: reallocate_def)

lemma push_front_bad_alloc:
  "push_front LOC SIZE CAP e s = Inl (bad_alloc, s') \<longleftrightarrow> m_size s = CAP \<and> s' = s"
  by (cases LOC)
     (auto simp: and_then_eq_Inl full_check_Inr full_check_Inl Let_def seq_size_def capacity_def
           dest: shift_Inl add_Inl split: if_splits)

lemma push_back_bad_alloc:
  "push_back LOC SIZE CAP e s = Inl (bad_alloc, s') \<longleftrightarrow> m_size s = CAP \<and> s' = s"
  by (cases LOC)
     (auto simp: and_then_eq_Inl full_check_Inr full_check_Inl Let_def seq_size_def capacity_def
           dest: shift_Inl add_Inl split: if_splits)

subsection \<open>Every push ends with one add\<close>

lemma and_then_add:
  assumes "and_then r (\<lambda>s1. add SIZE CAP (f s1) e s1) = Inr s'"
    and "\<And>s1. r = Inr s1 \<Longrightarrow> Q s1"
  shows "\<exists>s1. Q s1 \<and> add SIZE CAP (f s1) e s1 = Inr s'"
  using assms by (auto simp: and_then_eq_Inr)

lemma push_front_prefix:
  assumes "push_front LOC SIZE CAP e s = Inr s'"
  shows "\<exists>s1. m_size s1 = m_size s \<and>
     add SIZE CAP (if LOC = BACK then data_start LOC CAP s1 - 1 else data_start LOC CAP s1) e s1
       = Inr s'"
proof (cases LOC)
  case FRONT
  show ?thesis
    unfolding FRONT
    apply (simp only: sequence_lits.simps if_False)
    apply (rule and_then_add [where r =
      "and_then (if seq_size s = capacity CAP then reallocate s else Inr s)
         (\<lambda>s. shift CAP (data_start FRONT CAP s) (data_end FRONT CAP s) 1 s)"])
    using assms apply (simp only: FRONT push_front.simps and_then_assoc)
    apply (auto simp: and_then_eq_Inr full_check_Inr seq_size_def capacity_def
             dest!: shift_fields)
    done
next
  case MIDDLE
  show ?thesis
    unfolding MIDDLE
    apply (simp only: sequence_lits.simps if_False)
    apply (rule and_then_add [where r =
      "and_then (if seq_size s = capacity CAP then reallocate s else Inr s)
         (\<lambda>s. if m_offset s = 0 then
            (let offset = (capacity CAP - seq_size s) div 2 in
             and_then
               (shift CAP (data_start MIDDLE CAP s) (data_end MIDDLE CAP s) (int offset) s)
               (\<lambda>s. Inr (s\<lparr>m_offset := to_size_type SIZE offset\<rparr>)))
          else Inr (s\<lparr>m_offset := to_size_type SIZE (m_offset s - 1)\<rparr>))"])
    using assms apply (simp only: MIDDLE push_front.simps and_then_assoc)
    apply (auto simp: and_then_eq_Inr full_check_Inr seq_size_def capacity_def Let_def
             dest!: shift_fields split: if_splits)
    done
next
  case BACK
  show ?thesis
    unfolding BACK
    apply (simp only: sequence_lits.simps if_True simp_thms)
    apply (rule and_then_add [where r =
      "if seq_size s = capacity CAP then reallocate s else Inr s"])
    using assms apply (simp only: BACK push_front.simps and_then_assoc)
    apply (auto simp: full_check_Inr seq_size_def capacity_def)
    done
qed

lemma push_back_prefix:
  assumes "push_back LOC SIZE CAP e s = Inr s'"
  shows "\<exists>s1. m_size s1 = m_size s \<and>
     add SIZE CAP (if LOC = BACK then data_end LOC CAP s1 - 1 else data_end LOC CAP s1) e s1
       = Inr s'"
proof (cases LOC)
  case FRONT
  show ?thesis
    unfolding FRONT
    apply (simp only: sequence_lits.simps if_False)
    apply (rule and_then_add [where r =
      "if seq_size s = capacity CAP then reallocate s else Inr s"])
    using assms apply (simp only: FRONT push_back.simps and_then_assoc)
    apply (auto simp: full_check_Inr seq_size_def capacity_def)
    done
next
  case MIDDLE
  show ?thesis
    unfolding MIDDLE
    apply (simp only: sequence_lits.simps if_False)
    apply (rule and_then_add [where r =
      "and_then (if seq_size s = capacity CAP then reallocate s else Inr s)
         (\<lambda>s. if back_gap SIZE CAP s = 0 then
            (let offset = m_offset s div 2 in
             and_then
               (shift CAP (data_start MIDDLE CAP s) (data_end MIDDLE CAP s)
                  (- int (m_offset s - offset)) s)
               (\<lambda>s. Inr (s\<lparr>m_offset := to_size_type SIZE offset\<rparr>)))
          else Inr s)"])
    using assms apply (simp only: MIDDLE push_back.simps and_then_assoc)
    apply (auto simp: and_then_eq_Inr full_check_Inr seq_size_def capacity_def Let_def
             dest!: shift_fields split: if_splits)
    done
next
  case BACK
  show ?thesis
    unfolding BACK
    apply (simp only: sequence_lits.simps if_True simp_thms)
    apply (rule and_then_add [where r =
      "and_then (if seq_size s = capacity CAP then reallocate s else Inr s)
         (\<lambda>s. shift CAP (data_start BACK CAP s) (data_end BACK CAP s) (- 1) s)"])
    using assms apply (simp only: BACK push_back.simps and_then_assoc)
    apply (auto simp: and_then_eq_Inr full_check_Inr seq_size_def capacity_def
             dest!: shift_fields)
    done
qed

lemma push_front_size:
  "push_front LOC SIZE CAP e s = Inr s' \<Longrightarrow> m_size s' = to_size_type SIZE (m_size s + 1)"
  by (auto dest!: push_front_prefix dest: add_slot)

lemma push_back_size:
  "push_back LOC SIZE CAP e s = Inr s' \<Longrightarrow> m_size s' = to_size_type SIZE (m_size s + 1)"
  by (auto dest!: push_back_prefix dest: add_slot)

lemma push_size:
  "push LOC SIZE CAP c s = Inr s' \<Longrightarrow> m_size s' = to_size_type SIZE (m_size s + 1)"
  by (cases c) (auto dest: push_front_size push_back_size)

text \<open>
  With a \<open>size_type\<close> too narrow for the capacity the counter wraps around: a push on
  a container of \<open>2 ^ SIZE - 1\<close> elements (255 for \<open>unsigned char\<close>) that returns
  leaves \<open>size() = 0\<close>.
\<close>

lemma size_counter_wraps:
  "m_size s + 1 = 2 ^ SIZE \<Longrightarrow> push LOC SIZE CAP c s = Inr s' \<Longrightarrow> seq_size s' = 0"
  by (auto dest: push_size simp: to_size_type_def seq_size_def)

subsection \<open>The bounds of the window\<close>

lemma add_fields:
  "add SIZE CAP p e s1 = Inr s' \<Longrightarrow>
     m_size s1 < CAP \<and> m_size s' \<le> m_size s1 + 1 \<and> m_offset s' = m_offset s1"
  by (auto simp: add_Inr to_size_type_le)

text \<open>The offset with which the \<open>MIDDLE\<close> strategy reaches its \<open>add\<close>.\<close>

lemma push_front_MIDDLE_offset:
  assumes "push_front MIDDLE SIZE CAP e s = Inr s'"
  shows "\<exists>s1. (m_size s1 = m_size s \<and>
            m_offset s1 \<le> (if m_offset s = 0 then (CAP - m_size s) div 2 else m_offset s - 1)) \<and>
     add SIZE CAP (data_start MIDDLE CAP s1) e s1 = Inr s'"
  apply (rule and_then_add [where r =
    "and_then (if seq_size s = capacity CAP then reallocate s else Inr s)
       (\<lambda>s. if m_offset s = 0 then
          (let offset = (capacity CAP - seq_size s) div 2 in
           and_then
             (shift CAP (data_start MIDDLE CAP s) (data_end MIDDLE CAP s) (int offset) s)
             (\<lambda>s. Inr (s\<lparr>m_offset := to_size_type SIZE offset\<rparr>)))
        else Inr (s\<lparr>m_offset := to_size_type SIZE (m_offset s - 1)\<rparr>))"])
  using assms apply (simp only: push_front.simps and_then_assoc)
  apply (auto simp: and_then_eq_Inr full_check_Inr seq_size_def capacity_def Let_def
           to_size_type_le
           dest!: shift_fields split: if_splits)
  done

lemma push_back_MIDDLE_offset:
  assumes "push_back MIDDLE SIZE CAP e s = Inr s'"
  shows "\<exists>s1. (m_size s1 = m_size s \<and>
            (if back_gap SIZE CAP s = 0 then m_offset s1 \<le> m_offset s div 2
             else m_offset s1 = m_offset s)) \<and>
     add SIZE CAP (data_end MIDDLE CAP s1) e s1 = Inr s'"
  apply (rule and_then_add [where r =
    "and_then (if seq_size s = capacity CAP then reallocate s else Inr s)
       (\<lambda>s. if back_gap SIZE CAP s = 0 then
          (let offset = m_offset s div 2 in
           and_then
             (shift CAP (data_start MIDDLE CAP s) (data_end MIDDLE CAP s)
                (- int (m_offset s - offset)) s)
             (\<lambda>s. Inr (s\<lparr>m_offset := to_size_type SIZE offset\<rparr>)))
        else Inr s)"])
  using assms apply (simp only: push_back.simps and_then_assoc)
  apply (auto simp: and_then_eq_Inr full_check_Inr seq_size_def capacity_def Let_def
           to_size_type_le
           dest!: shift_fields split: if_splits)
  done

lemma back_gap_nonzero:
  "back_gap SIZE CAP s \<noteq> 0 \<Longrightarrow> m_offset s + m_size s < CAP"
  by (auto simp: back_gap_def to_size_type_def capacity_def seq_size_def intro: ccontr)

lemma push_front_bounds:
  assumes "push_front LOC SIZE CAP e s = Inr s'" and "window_bounds LOC CAP s"
  shows "window_bounds LOC CAP s'"
proof (cases LOC)
  case MIDDLE
  from assms(1) obtain s1 where
    s1: "m_size s1 = m_size s"
      "m_offset s1 \<le> (if m_offset s = 0 then (CAP - m_size s) div 2 else m_offset s - 1)"
      "add SIZE CAP (data_start MIDDLE CAP s1) e s1 = Inr s'"
    unfolding MIDDLE by (blast dest: push_front_MIDDLE_offset)
  from add_fields [OF s1(3)] s1(1,2) assms(2) show ?thesis
    unfolding MIDDLE by (auto split: if_splits)
next
  case FRONT
  from push_front_prefix [OF assms(1)] obtain s1 p where
    "m_size s1 = m_size s" "add SIZE CAP p e s1 = Inr s'"
    by blast
  with add_fields [of SIZE CAP p e s1 s'] assms(2) show ?thesis
    by (auto simp: FRONT)
next
  case BACK
  from push_front_prefix [OF assms(1)] obtain s1 p where
    "m_size s1 = m_size s" "add SIZE CAP p e s1 = Inr s'"
    by blast
  with add_fields [of SIZE CAP p e s1 s'] assms(2) show ?thesis
    by (auto simp: BACK)
qed

lemma push_back_bounds:
  assumes "push_back LOC SIZE CAP e s = Inr s'" and "window_bounds LOC CAP s"
  shows "window_bounds LOC CAP s'"
proof (cases LOC)
  case MIDDLE
  from assms(1) obtain s1 where
    s1: "m_size s1 = m_size s"
      "if back_gap SIZE CAP s = 0 then m_offset s1 \<le> m_offset s div 2
       else m_offset s1 = m_offset s"
      "add SIZE CAP (data_end MIDDLE CAP s1) e s1 = Inr s'"
    unfolding MIDDLE by (blast dest: push_back_MIDDLE_offset)
  show ?thesis
  proof (cases "back_gap SIZE CAP s = 0")
    case True
    with add_fields [OF s1(3)] s1(1,2) assms(2) show ?thesis
      unfolding MIDDLE by auto
  next
    case False
    with add_fields [OF s1(3)] s1(1,2) back_gap_nonzero [OF False] show ?thesis
      unfolding MIDDLE by auto
  qed
next
  case FRONT
  from push_back_prefix [OF assms(1)] obtain s1 p where
    "m_size s1 = m_size s" "add SIZE CAP p e s1 = Inr s'"
    by blast
  with add_fields [of SIZE CAP p e s1 s'] assms(2) show ?thesis
    by (auto simp: FRONT)
next
  case BACK
  from push_back_prefix [OF assms(1)] obtain s1 p where
    "m_size s1 = m_size s" "add SIZE CAP p e s1 = Inr s'"
    by blast
  with add_fields [of SIZE CAP p e s1 s'] assms(2) show ?thesis
    by (auto simp: BACK)
qed

lemma push_bounds:
  "push LOC SIZE CAP c s = Inr s' \<Longrightarrow> window_bounds LOC CAP s \<Longrightarrow> window_bounds LOC CAP s'"
  by (cases c) (auto dest: push_front_bounds push_back_bounds)

lemma pushes_bounds:
  "pushes LOC SIZE CAP ps s = Inr s' \<Longrightarrow> window_bounds LOC CAP s \<Longrightarrow>
     window_bounds LOC CAP s'"
  by (induction ps arbitrary: s) (auto simp: and_then_eq_Inr dest: push_bounds)

lemma init_bounds: "window_bounds LOC CAP (sequence_init LOC SIZE CAP)"
proof (cases LOC)
  case MIDDLE
  have "to_size_type SIZE (CAP div 2) \<le> CAP div 2"
    by (rule to_size_type_le)
  then show ?thesis
    by (simp add: MIDDLE sequence_init_def)
qed (simp_all add: sequence_init_def)

subsection \<open>push_back keeps the window\<close>

text \<open>
  When \<open>size_type\<close> can hold the capacity, on a container whose window holds \<open>xs\<close> and
  that is not full, \<open>push_back\<close> of a value from outside returns, and the window then
  holds \<open>xs @ [e]\<close>: for \<open>FRONT\<close> by the add alone, for \<open>MIDDLE\<close> and \<open>BACK\<close> after the
  downward shift.
\<close>

lemma back_gap_fits:
  assumes "CAP < 2 ^ SIZE"
  shows "back_gap SIZE CAP s = CAP - (m_offset s + m_size s)"
proof -
  have "CAP - (m_offset s + m_size s) < 2 ^ SIZE"
    using assms by (rule less_imp_diff_less)
  then show ?thesis
    by (simp add: back_gap_def capacity_def seq_size_def to_size_type_id)
qed

lemma push_back_window:
  assumes w: "window CAP s (data_start LOC CAP s) xs" and n: "length xs < CAP"
    and fits: "CAP < 2 ^ SIZE"
  shows "\<exists>s'. push_back LOC SIZE CAP (Outside e) s = Inr s' \<and>
     window CAP s' (data_start LOC CAP s') (xs @ [e])"
proof (cases LOC)
  case FRONT
  from w have w0: "window CAP s 0 xs"
    by (simp add: FRONT capacity_start_def)
  from w n have sz: "m_size s = length xs"
    by (simp add: window_def)
  from n have "0 + int (length xs) < int CAP"
    by simp
  from add_window_back [OF w0 this fits, of e] obtain s' where
    s': "add SIZE CAP (0 + int (length xs)) (Outside e) s = Inr s'"
      "window CAP s' 0 (xs @ [e])"
    by blast
  have "push_back FRONT SIZE CAP (Outside e) s = Inr s'"
    using n sz s'(1)
    by (simp add: seq_size_def capacity_def capacity_start_def reallocate_def)
  with s'(2) FRONT show ?thesis
    by (simp add: capacity_start_def)
next
  case MIDDLE
  from w n have sz: "m_size s = length xs" and le: "m_offset s + length xs \<le> CAP"
    by (simp_all add: window_def MIDDLE capacity_start_def)
  from w have w0: "window CAP s (int (m_offset s)) xs"
    by (simp add: MIDDLE capacity_start_def)
  show ?thesis
  proof (cases "back_gap SIZE CAP s = 0")
    case True
    with sz le n have off: "m_offset s + length xs = CAP" "0 < m_offset s"
      by (auto simp: back_gap_fits [OF fits])
    let ?h = "m_offset s div 2"
    let ?d = "int (m_offset s - ?h)"
    from off have d: "0 < ?d" "?d \<le> int (m_offset s)" "int (m_offset s) - ?d = int ?h"
      by auto
    from off fits have "?h < 2 ^ SIZE"
      by simp
    then have hfit: "to_size_type SIZE ?h = ?h"
      by (rule to_size_type_id)
    from shift_window_down [OF w0 d(1,2)] obtain s1 where
      s1: "shift CAP (int (m_offset s)) (int (m_offset s) + int (length xs)) (- ?d) s = Inr s1"
        "window CAP s1 (int ?h) xs"
      by (auto simp: d(3))
    let ?s2 = "s1\<lparr>m_offset := ?h\<rparr>"
    from s1 have w2: "window CAP ?s2 (int ?h) xs"
      by simp
    from off have "int ?h + int (length xs) < int CAP"
      by linarith
    from add_window_back [OF w2 this fits, of e] obtain s' where
      s': "add SIZE CAP (int ?h + int (length xs)) (Outside e) ?s2 = Inr s'"
        "window CAP s' (int ?h) (xs @ [e])" "m_offset s' = ?h"
      by auto
    have "push_back MIDDLE SIZE CAP (Outside e) s = Inr s'"
      using True n sz s1(1) s' window_size [OF s1(2)] hfit
      by (simp add: seq_size_def capacity_def capacity_start_def reallocate_def)
    with s' MIDDLE show ?thesis
      by (simp add: capacity_start_def)
  next
    case False
    with sz have "int (m_offset s) + int (length xs) < int CAP"
      by (simp add: back_gap_fits [OF fits])
    from add_window_back [OF w0 this fits, of e] obtain s' where
      s': "add SIZE CAP (int (m_offset s) + int (length xs)) (Outside e) s = Inr s'"
        "window CAP s' (int (m_offset s)) (xs @ [e])" "m_offset s' = m_offset s"
      by auto
    have "push_back MIDDLE SIZE CAP (Outside e) s = Inr s'"
      using False n sz s'
      by (simp add: seq_size_def capacity_def capacity_start_def reallocate_def)
    with s' MIDDLE show ?thesis
      by (simp add: capacity_start_def)
  qed
next
  case BACK
  from w n have sz: "m_size s = length xs"
    by (simp add: window_def)
  let ?b = "int CAP - int (length xs)"
  from w have w0: "window CAP s ?b xs"
    by (simp add: BACK sz capacity_end_def capacity_start_def seq_size_def)
  from n have "(0::int) < 1" "1 \<le> ?b"
    by auto
  from shift_window_down [OF w0 this] obtain s1 where
    s1: "shift CAP ?b (?b + int (length xs)) (- 1) s = Inr s1" "window CAP s1 (?b - 1) xs"
    by blast
  from n have "?b - 1 + int (length xs) < int CAP"
    by simp
  from add_window_back [OF s1(2) this fits, of e] obtain s' where
    s': "add SIZE CAP (?b - 1 + int (length xs)) (Outside e) s1 = Inr s'"
      "window CAP s' (?b - 1) (xs @ [e])"
    by blast
  have "push_back BACK SIZE CAP (Outside e) s = Inr s'"
    using n sz s1(1) s'(1) window_size [OF s1(2)]
    by (simp add: seq_size_def capacity_def capacity_start_def capacity_end_def reallocate_def)
  moreover have "data_start BACK CAP s' = ?b - 1"
    using window_size [OF s'(2)]
    by (simp add: seq_size_def capacity_end_def capacity_start_def)
  ultimately show ?thesis
    using s'(2) BACK by simp
qed

lemma pushes_back_window:
  assumes "window CAP s (data_start LOC CAP s) xs" "length xs + length vs \<le> CAP"
    and fits: "CAP < 2 ^ SIZE"
  shows "\<exists>s'. pushes LOC SIZE CAP (map (Push_back \<circ> Outside) vs) s = Inr s' \<and>
     window CAP s' (data_start LOC CAP s') (xs @ vs)"
  using assms(1,2)
proof (induction vs arbitrary: s xs)
  case Nil
  then show ?case by simp
next
  case (Cons v vs)
  from Cons.prems have "length xs < CAP"
    by simp
  from push_back_window [OF Cons.prems(1) this fits, of v] obtain s1 where
    s1: "push_back LOC SIZE CAP (Outside v) s = Inr s1"
      "window CAP s1 (data_start LOC CAP s1) (xs @ [v])"
    by blast
  from Cons.IH [OF s1(2)] Cons.prems(2) s1(1) show ?case
    by simp
qed

text \<open>
  So \<open>push_back\<close> of values from outside the container round-trips, for every location,
  when \<open>size_type\<close> can hold the capacity.
\<close>

lemma push_back_values_round_trip:
  assumes "CAP < 2 ^ SIZE" "length vs \<le> CAP"
  shows "\<exists>s. pushes LOC SIZE CAP (map (Push_back \<circ> Outside) vs) (sequence_init LOC SIZE CAP)
           = Inr s \<and>
     iterate LOC CAP s = map Some vs"
proof -
  from pushes_back_window [OF init_window _ assms(1), of vs LOC] assms(2) obtain s where
    s: "pushes LOC SIZE CAP (map (Push_back \<circ> Outside) vs) (sequence_init LOC SIZE CAP) = Inr s"
      "window CAP s (data_start LOC CAP s) vs"
    by auto
  from s(1) iterate_window [OF s(2)] show ?thesis
    by blast
qed

subsection \<open>push_front of the BACK strategy keeps the window\<close>

lemma push_front_BACK_window:
  assumes w: "window CAP s (data_start BACK CAP s) xs" and n: "length xs < CAP"
    and fits: "CAP < 2 ^ SIZE"
  shows "\<exists>s'. push_front BACK SIZE CAP (Outside e) s = Inr s' \<and>
     window CAP s' (data_start BACK CAP s') (e # xs)"
proof -
  from w have sz: "m_size s = length xs"
    by (rule window_size)
  let ?b = "int CAP - int (length xs)"
  from w have w0: "window CAP s ?b xs"
    by (simp add: sz capacity_end_def capacity_start_def seq_size_def)
  from n have "0 < ?b"
    by simp
  from add_window_front [OF w0 this fits, of e] obtain s' where
    s': "add SIZE CAP (?b - 1) (Outside e) s = Inr s'" "window CAP s' (?b - 1) (e # xs)"
    by blast
  have "push_front BACK SIZE CAP (Outside e) s = Inr s'"
    using n sz s'(1)
    by (simp add: seq_size_def capacity_def capacity_start_def capacity_end_def reallocate_def)
  moreover have "data_start BACK CAP s' = ?b - 1"
    using window_size [OF s'(2)]
    by (simp add: seq_size_def capacity_end_def capacity_start_def)
  ultimately show ?thesis
    using s'(2) by simp
qed

lemma pushes_front_BACK_window:
  assumes "window CAP s (data_start BACK CAP s) xs" "length xs + length vs \<le> CAP"
    and fits: "CAP < 2 ^ SIZE"
  shows "\<exists>s'. pushes BACK SIZE CAP (map (Push_front \<circ> Outside) vs) s = Inr s' \<and>
     window CAP s' (data_start BACK CAP s') (rev vs @ xs)"
  using assms(1,2)
proof (induction vs arbitrary: s xs)
  case Nil
  then show ?case by simp
next
  case (Cons v vs)
  from Cons.prems have "length xs < CAP"
    by simp
  from push_front_BACK_window [OF Cons.prems(1) this fits, of v] obtain s1 where
    s1: "push_front BACK SIZE CAP (Outside v) s = Inr s1"
      "window CAP s1 (data_start BACK CAP s1) (v # xs)"
    by blast
  from Cons.IH [OF s1(2)] Cons.prems(2) s1(1) show ?case
    by simp
qed

lemma push_front_BACK_round_trip:
  assumes "CAP < 2 ^ SIZE" "length vs \<le> CAP"
  shows "\<exists>s. pushes BACK SIZE CAP (map (Push_front \<circ> Outside) vs) (sequence_init BACK SIZE CAP)
           = Inr s \<and>
     iterate BACK CAP s = map Some (rev vs)"
proof -
  from pushes_front_BACK_window [OF init_window _ assms(1), of vs] assms(2) obtain s where
    s: "pushes BACK SIZE CAP (map (Push_front \<circ> Outside) vs) (sequence_init BACK SIZE CAP)
          = Inr s"
      "window CAP s (data_start BACK CAP s) (rev vs)"
    by auto
  from s(1) iterate_window [OF s(2)] show ?thesis
    by blast
qed

section \<open>The claims\<close>

text \<open>
  Claim C1. For a fixed-capacity container of capacity \<open>c\<close>, \<open>c\<close> pushes through
  \<open>push_front\<close> or \<open>push_back\<close> succeed and the next one fails with \<open>bad_alloc\<close>, leaving
  the \<open>c\<close> elements as they were. The code does not do this for \<open>push_front\<close> of the
  \<open>FRONT\<close> strategy: with capacity 2 the first call returns, and the second call, made
  with one free slot left, asks \<open>shift\<close> to move the element up by one; the loop starts
  at \<open>dst = end + dist\<close>, which is slot 2, one past the array, although
  \<open>assert(end + dist <= capacity_end())\<close> has passed.
\<close>

theorem FRONT_push_front_writes_past_capacity:
  "push_front FRONT size_t 2 (Outside (1 :: int)) (sequence_init FRONT size_t 2) =
     Inr \<lparr>m_size = 1, elements = [Some 1, None], m_offset = 0\<rparr> \<and>
   shift 2 0 1 1 \<lparr>m_size = 1, elements = [Some (1 :: int), None], m_offset = 0\<rparr> =
     placement_new 2 2 1 \<lparr>m_size = 1, elements = [Some 1, None], m_offset = 0\<rparr> \<and>
   push_front FRONT size_t 2 (Outside 2) \<lparr>m_size = 1, elements = [Some (1 :: int), None], m_offset = 0\<rparr> =
     Inl (undefined_behavior, \<lparr>m_size = 1, elements = [Some 1, None], m_offset = 0\<rparr>)"
  by code_simp

text \<open>
  Claim C2. Pushing \<open>v1, ..., vn\<close> with \<open>push_front\<close> and iterating yields
  \<open>vn, ..., v1\<close>, for every location. The code does not do this for \<open>FRONT\<close> and
  \<open>MIDDLE\<close>. With \<open>FRONT\<close> and capacity 3, after \<open>push_front(1)\<close> and \<open>push_front(2)\<close>
  the shift has moved 1 from slot 0 to slot 2, not slot 1: the window is slots 0 and 1,
  and slot 1 is raw memory. With \<open>MIDDLE\<close> and capacity 2, the second
  \<open>push_front\<close> finds \<open>m_offset = 0\<close>, computes the new offset \<open>(2 - 1) / 2 = 0\<close>, shifts
  nothing and constructs 2 over the live 1 in slot 0.
\<close>

theorem push_front_round_trip_fails:
  "pushes FRONT size_t 3 (map (Push_front \<circ> Outside) [1, 2 :: int]) (sequence_init FRONT size_t 3) =
     Inr \<lparr>m_size = 2, elements = [Some 2, None, Some 1], m_offset = 0\<rparr> \<and>
   iterate FRONT 3 \<lparr>m_size = 2, elements = [Some 2, None, Some (1 :: int)], m_offset = 0\<rparr> =
     [Some 2, None] \<and>
   iterate FRONT 3 \<lparr>m_size = 2, elements = [Some 2, None, Some (1 :: int)], m_offset = 0\<rparr> \<noteq>
     map Some [2, 1] \<and>
   pushes MIDDLE size_t 2 (map (Push_front \<circ> Outside) [1, 2 :: int]) (sequence_init MIDDLE size_t 2) =
     Inr \<lparr>m_size = 2, elements = [Some 2, None], m_offset = 0\<rparr> \<and>
   iterate MIDDLE 2 \<lparr>m_size = 2, elements = [Some (2 :: int), None], m_offset = 0\<rparr> =
     [Some 2, None] \<and>
   iterate MIDDLE 2 \<lparr>m_size = 2, elements = [Some (2 :: int), None], m_offset = 0\<rparr> \<noteq>
     map Some [2, 1]"
  by code_simp

text \<open>
  Claim C3. In every state reached by pushes from an empty container the live elements
  occupy exactly the slots of \<open>[data_start, data_start + size)\<close> and every other slot is
  raw memory. The code does not keep this for \<open>FRONT\<close>: with capacity 4, after
  \<open>push_front(1)\<close> and \<open>push_front(2)\<close> the window is slots 0 and 1, slot 1 is raw memory
  and the live element 1 sits in slot 2, outside the window.
\<close>

theorem FRONT_push_front_breaks_window:
  "pushes FRONT size_t 4 [Push_front (Outside 1), Push_front (Outside (2 :: int))] (sequence_init FRONT size_t 4) =
     Inr \<lparr>m_size = 2, elements = [Some 2, None, Some 1, None], m_offset = 0\<rparr> \<and>
   data_start FRONT 4
     \<lparr>m_size = 2, elements = [Some 2, None, Some (1 :: int), None], m_offset = 0\<rparr> = 0 \<and>
   data_end FRONT 4
     \<lparr>m_size = 2, elements = [Some 2, None, Some (1 :: int), None], m_offset = 0\<rparr> = 2 \<and>
   slot 4 \<lparr>m_size = 2, elements = [Some 2, None, Some (1 :: int), None], m_offset = 0\<rparr> 1 =
     None \<and>
   slot 4 \<lparr>m_size = 2, elements = [Some 2, None, Some (1 :: int), None], m_offset = 0\<rparr> 2 =
     Some 1"
  by code_simp

text \<open>
  Claim C4. For every location, pushing \<open>v1, ..., vn\<close> with \<open>push_back\<close> on an empty
  container and iterating from \<open>begin()\<close> to \<open>end()\<close> yields \<open>v1, ..., vn\<close>. The code
  does not do this when a pushed value is an element of the container itself and the
  push shifts: for \<open>BACK\<close> with capacity 3, after \<open>push_back(4)\<close> and \<open>push_back(5)\<close>
  the first element, 4, is in slot 1; \<open>push_back(*begin())\<close> then shifts the elements
  down by one and only afterwards copies from the reference, which now refers to 5:
  iteration yields 4, 5, 5 and not 4, 5, 4.
\<close>

theorem push_back_of_own_element_round_trip_fails:
  "pushes BACK size_t 3 [Push_back (Outside 4), Push_back (Outside (5 :: int))]
     (sequence_init BACK size_t 3) =
     Inr \<lparr>m_size = 2, elements = [None, Some 4, Some 5], m_offset = 0\<rparr> \<and>
   sequence_begin BACK 3 \<lparr>m_size = 2, elements = [None, Some 4, Some (5 :: int)], m_offset = 0\<rparr>
     = 1 \<and>
   value_of 3 \<lparr>m_size = 2, elements = [None, Some 4, Some (5 :: int)], m_offset = 0\<rparr> (Inside 1)
     = Some 4 \<and>
   pushes BACK size_t 3 [Push_back (Outside 4), Push_back (Outside (5 :: int)), Push_back (Inside 1)]
     (sequence_init BACK size_t 3) =
     Inr \<lparr>m_size = 3, elements = [Some 4, Some 5, Some 5], m_offset = 0\<rparr> \<and>
   iterate BACK 3 \<lparr>m_size = 3, elements = [Some 4, Some 5, Some (5 :: int)], m_offset = 0\<rparr> =
     map Some [4, 5, 5] \<and>
   iterate BACK 3 \<lparr>m_size = 3, elements = [Some 4, Some 5, Some (5 :: int)], m_offset = 0\<rparr> \<noteq>
     map Some [4, 5, 4]"
  by code_simp

text \<open>
  Claim C5. For a \<open>MIDDLE\<close> container, after any sequence of \<open>push_front\<close> and
  \<open>push_back\<close> calls that all return, starting from an empty container,
  \<open>0 \<le> offset\<close> and \<open>offset + size() \<le> capacity()\<close>.
\<close>

theorem MIDDLE_offset_invariant:
  assumes "pushes MIDDLE SIZE CAP ps (sequence_init MIDDLE SIZE CAP) = Inr s"
  shows "0 \<le> m_offset s \<and> m_offset s + seq_size s \<le> capacity CAP"
  using pushes_bounds [OF assms init_bounds] by (simp add: seq_size_def capacity_def)

theorem MIDDLE_offset_invariant_witness:
  "pushes MIDDLE size_t 3 [Push_front (Outside 1), Push_front (Outside 2), Push_back (Outside (3 :: int))] (sequence_init MIDDLE size_t 3) =
     Inr \<lparr>m_size = 3, elements = [Some 2, Some 1, Some 3], m_offset = 0\<rparr> \<and>
   0 \<le> m_offset \<lparr>m_size = 3, elements = [Some 2, Some 1, Some (3 :: int)], m_offset = 0\<rparr> \<and>
   m_offset \<lparr>m_size = 3, elements = [Some 2, Some 1, Some (3 :: int)], m_offset = 0\<rparr> +
     seq_size \<lparr>m_size = 3, elements = [Some 2, Some 1, Some (3 :: int)], m_offset = 0\<rparr>
     \<le> capacity 3"
proof -
  have run: "pushes MIDDLE size_t 3 [Push_front (Outside 1), Push_front (Outside 2), Push_back (Outside (3 :: int))]
       (sequence_init MIDDLE size_t 3) =
     Inr \<lparr>m_size = 3, elements = [Some 2, Some 1, Some 3], m_offset = 0\<rparr>"
    by code_simp
  from MIDDLE_offset_invariant [OF run] run show ?thesis
    by simp
qed

text \<open>
  Claim C6. The scenario of \<open>main\<close>: a \<open>BACK\<close>-located, local container of capacity 10
  holding integers. \<open>push_front(1)\<close> to \<open>push_front(5)\<close> return, iteration then yields 5,
  4, 3, 2, 1 and \<open>size()\<close> is 5; five more calls of \<open>push_front\<close> return; an eleventh
  fails with \<open>bad_alloc\<close> and leaves the ten elements and their order as they were.
\<close>

theorem BACK_capacity_10_scenario:
  "pushes BACK size_t 10 (map (Push_front \<circ> Outside) [1, 2, 3, 4, 5 :: int]) (sequence_init BACK size_t 10) =
     Inr \<lparr>m_size = 5,
          elements = [None, None, None, None, None, Some 5, Some 4, Some 3, Some 2, Some 1],
          m_offset = 0\<rparr> \<and>
   iterate BACK 10
     \<lparr>m_size = 5,
      elements = [None, None, None, None, None, Some 5, Some 4, Some 3, Some 2, Some (1 :: int)],
      m_offset = 0\<rparr> = map Some [5, 4, 3, 2, 1] \<and>
   seq_size
     \<lparr>m_size = 5,
      elements = [None, None, None, None, None, Some 5, Some 4, Some 3, Some 2, Some (1 :: int)],
      m_offset = 0\<rparr> = 5 \<and>
   pushes BACK size_t 10 (map (Push_front \<circ> Outside) [a, b, c, d, e])
     \<lparr>m_size = 5,
      elements = [None, None, None, None, None, Some 5, Some 4, Some 3, Some 2, Some 1],
      m_offset = 0\<rparr> =
     Inr \<lparr>m_size = 10,
          elements = [Some e, Some d, Some c, Some b, Some a, Some 5, Some 4, Some 3, Some 2, Some 1],
          m_offset = 0\<rparr> \<and>
   push_front BACK size_t 10 (Outside x)
     \<lparr>m_size = 10,
      elements = [Some e, Some d, Some c, Some b, Some a, Some 5, Some 4, Some 3, Some 2, Some 1],
      m_offset = 0\<rparr> =
     Inl (bad_alloc,
       \<lparr>m_size = 10,
        elements = [Some e, Some d, Some c, Some b, Some a, Some 5, Some 4, Some 3, Some 2, Some 1],
        m_offset = 0\<rparr>) \<and>
   iterate BACK 10
     \<lparr>m_size = 10,
      elements = [Some e, Some d, Some c, Some b, Some a, Some 5, Some 4, Some 3, Some 2, Some 1],
      m_offset = 0\<rparr> = map Some [e, d, c, b, a, 5, 4, 3, 2, 1]"
proof (intro conjI)
  show "pushes BACK size_t 10 (map (Push_front \<circ> Outside) [1, 2, 3, 4, 5 :: int]) (sequence_init BACK size_t 10) =
     Inr \<lparr>m_size = 5,
          elements = [None, None, None, None, None, Some 5, Some 4, Some 3, Some 2, Some 1],
          m_offset = 0\<rparr>"
    by code_simp
  show "iterate BACK 10
     \<lparr>m_size = 5,
      elements = [None, None, None, None, None, Some 5, Some 4, Some 3, Some 2, Some (1 :: int)],
      m_offset = 0\<rparr> = map Some [5, 4, 3, 2, 1]"
    by code_simp
  show "iterate BACK 10
     \<lparr>m_size = 10,
      elements = [Some e, Some d, Some c, Some b, Some a, Some 5, Some 4, Some 3, Some 2, Some 1],
      m_offset = 0\<rparr> = map Some [e, d, c, b, a, 5, 4, 3, 2, 1]"
    by (simp add: eval_defs upto.simps)
qed (simp_all add: eval_defs)

text \<open>
  Claim C7. In every push of every location, \<open>reallocate\<close> is called only when
  \<open>size() == capacity()\<close> at the start of the call, and before any shift or recentering:
  a push ends with \<open>bad_alloc\<close> exactly when the container is full, and the container is
  then as it was when the call started.
\<close>

theorem bad_alloc_only_when_full:
  "push LOC SIZE CAP c s = Inl (bad_alloc, s') \<longleftrightarrow> seq_size s = capacity CAP \<and> s' = s"
  by (cases c)
     (simp_all add: push_front_bad_alloc push_back_bad_alloc seq_size_def capacity_def)

theorem bad_alloc_only_when_full_witness:
  "seq_size \<lparr>m_size = 1, elements = [Some (5 :: int)], m_offset = 0\<rparr> = capacity 1 \<and>
   push MIDDLE size_t 1 (Push_front (Outside 6)) \<lparr>m_size = 1, elements = [Some (5 :: int)], m_offset = 0\<rparr> =
     Inl (bad_alloc, \<lparr>m_size = 1, elements = [Some 5], m_offset = 0\<rparr>)"
  using bad_alloc_only_when_full
    [of MIDDLE size_t 1 "Push_front (Outside 6)" "\<lparr>m_size = 1, elements = [Some (5 :: int)], m_offset = 0\<rparr>"
        "\<lparr>m_size = 1, elements = [Some (5 :: int)], m_offset = 0\<rparr>"]
  by (simp add: seq_size_def capacity_def)

text \<open>
  Claim C8. Destroying a container destroys each live element exactly once and runs no
  destructor on a raw slot. The destructor does run \<open>size()\<close> times, but on the slots of
  the window: for \<open>FRONT\<close> with capacity 5, after \<open>push_front(7)\<close> and \<open>push_front(8)\<close>, it
  runs on slot 0, which holds 8, and on slot 1, which is raw memory, and the live
  element 7 in slot 2 is never destroyed.
\<close>

theorem FRONT_destructor_misses_live_element:
  "pushes FRONT size_t 5 [Push_front (Outside 7), Push_front (Outside (8 :: int))] (sequence_init FRONT size_t 5) =
     Inr \<lparr>m_size = 2, elements = [Some 8, None, Some 7, None, None], m_offset = 0\<rparr> \<and>
   sequence_dtor FRONT 5
     \<lparr>m_size = 2, elements = [Some 8, None, Some (7 :: int), None, None], m_offset = 0\<rparr> =
     ([Some 8, None], [None, None, Some 7, None, None])"
  by code_simp

text \<open>
  Claim C9. For every location and every state reached by pushes from a
  default-constructed container, \<open>end() - begin() = size()\<close>, so that \<open>begin() = end()\<close>
  exactly when the container is empty; both pointers lie within the capacity.
\<close>

theorem end_minus_begin_is_size:
  assumes "pushes LOC SIZE CAP ps (sequence_init LOC SIZE CAP) = Inr s"
  shows "capacity_start \<le> sequence_begin LOC CAP s \<and>
     sequence_end LOC CAP s \<le> capacity_end CAP \<and>
     sequence_end LOC CAP s - sequence_begin LOC CAP s = int (seq_size s) \<and>
     (sequence_begin LOC CAP s = sequence_end LOC CAP s \<longleftrightarrow> seq_size s = 0)"
  using pushes_bounds [OF assms init_bounds]
  by (cases LOC)
     (auto simp: sequence_begin_def sequence_end_def seq_size_def capacity_start_def
        capacity_end_def)

theorem end_minus_begin_is_size_witness:
  "pushes BACK size_t 2 [Push_front (Outside (3 :: int))] (sequence_init BACK size_t 2) =
     Inr \<lparr>m_size = 1, elements = [None, Some 3], m_offset = 0\<rparr> \<and>
   sequence_end BACK 2 \<lparr>m_size = 1, elements = [None, Some (3 :: int)], m_offset = 0\<rparr> -
     sequence_begin BACK 2 \<lparr>m_size = 1, elements = [None, Some (3 :: int)], m_offset = 0\<rparr> =
     int (seq_size \<lparr>m_size = 1, elements = [None, Some (3 :: int)], m_offset = 0\<rparr>)"
proof -
  have run: "pushes BACK size_t 2 [Push_front (Outside (3 :: int))] (sequence_init BACK size_t 2) =
     Inr \<lparr>m_size = 1, elements = [None, Some 3], m_offset = 0\<rparr>"
    by code_simp
  from end_minus_begin_is_size [OF run] run show ?thesis
    by blast
qed

text \<open>
  Claim C10. For every location, a \<open>push_front(v)\<close> or \<open>push_back(v)\<close> that returns has
  increased \<open>size()\<close> by exactly one and has constructed one element, a copy of \<open>v\<close>,
  by one call of \<open>add\<close>, and the caller's argument is left unmodified. The code does
  not do this when \<open>v\<close> is an element of the container itself and the push shifts: for
  \<open>BACK\<close> with capacity 3 holding 4, 5, the call \<open>push_back(*begin())\<close> shifts the
  elements down before \<open>add\<close> reads the reference, so that the object referred to
  holds 4 before the call and 5 after it, and the element constructed in the back slot
  is 5, not the 4 that was pushed.
\<close>

theorem push_back_of_own_element_changes_argument:
  "pushes BACK size_t 3 [Push_back (Outside 4), Push_back (Outside (5 :: int))] (sequence_init BACK size_t 3) =
     Inr \<lparr>m_size = 2, elements = [None, Some 4, Some 5], m_offset = 0\<rparr> \<and>
   sequence_begin BACK 3 \<lparr>m_size = 2, elements = [None, Some 4, Some (5 :: int)], m_offset = 0\<rparr>
     = 1 \<and>
   value_of 3 \<lparr>m_size = 2, elements = [None, Some 4, Some (5 :: int)], m_offset = 0\<rparr> (Inside 1)
     = Some 4 \<and>
   push_back BACK size_t 3 (Inside 1)
     \<lparr>m_size = 2, elements = [None, Some 4, Some (5 :: int)], m_offset = 0\<rparr> =
     Inr \<lparr>m_size = 3, elements = [Some 4, Some 5, Some 5], m_offset = 0\<rparr> \<and>
   value_of 3 \<lparr>m_size = 3, elements = [Some 4, Some 5, Some (5 :: int)], m_offset = 0\<rparr>
     (Inside 1) \<noteq>
   value_of 3 \<lparr>m_size = 2, elements = [None, Some 4, Some (5 :: int)], m_offset = 0\<rparr>
     (Inside 1) \<and>
   slot 3 \<lparr>m_size = 3, elements = [Some 4, Some 5, Some (5 :: int)], m_offset = 0\<rparr>
     (data_end BACK 3
        \<lparr>m_size = 3, elements = [Some 4, Some 5, Some (5 :: int)], m_offset = 0\<rparr> - 1) \<noteq>
   value_of 3 \<lparr>m_size = 2, elements = [None, Some 4, Some (5 :: int)], m_offset = 0\<rparr>
     (Inside 1)"
  by code_simp

end
